theory Spec2Isabelle
  imports Complex_Main "HOL-Library.Word"
begin

unbundle bit_operations_syntax

section \<open>Database models\<close>

text \<open>
  The two SQLAlchemy models of \<^verbatim>\<open>main.py\<close>. A row is a record; the column
  \<^verbatim>\<open>User.token\<close> is declared \<^verbatim>\<open>nullable=True\<close>, so it is an option.
\<close>

record User =
  User_id :: int
  User_email :: string
  User_password :: string
  User_token :: "string option"

record Post =
  Post_id :: int
  Post_text :: string
  Post_user_id :: int
  Post_created_at :: int

text \<open>
  The relational store behind the session: the rows of both tables in insertion order and
  the next value of each auto-incremented primary key. Strings are compared exactly.
\<close>

record Store =
  users :: "User list"
  posts :: "Post list"
  users_next_id :: int
  posts_next_id :: int

definition empty_store :: Store where
  "empty_store = \<lparr>users = [], posts = [], users_next_id = 1, posts_next_id = 1\<rparr>"

section \<open>Request schemas, responses and errors\<close>

record UserCreate =
  UserCreate_email :: string
  UserCreate_password :: string

record UserLogin =
  UserLogin_email :: string
  UserLogin_password :: string

record PostCreate =
  PostCreate_text :: string

text \<open>
  What a handler returns: \<^verbatim>\<open>{"token": ...}\<close>, \<^verbatim>\<open>{"postID": ...}\<close>, the list
  of posts, \<^verbatim>\<open>{"detail": ...}\<close>.
\<close>

datatype response =
  Token "string option"
| PostID int
| Posts "Post list"
| Detail string

text \<open>
  What a handler raises: the \<^verbatim>\<open>HTTPException\<close> with its status code and detail, the
  store's \<^verbatim>\<open>IntegrityError\<close> when a commit breaks a unique constraint, and the
  \<^verbatim>\<open>KeyError\<close> of a cache read that finds no live entry.
\<close>

datatype error =
  HTTPException nat string
| IntegrityError
| KeyError

abbreviation ConflictError :: error where
  "ConflictError \<equiv> HTTPException 400 ''Email already registered''"

abbreviation AuthenticationError :: error where
  "AuthenticationError \<equiv> HTTPException 400 ''Invalid credentials''"

abbreviation AuthorizationError :: error where
  "AuthorizationError \<equiv> HTTPException 401 ''Invalid or missing token''"

abbreviation NotFoundError :: error where
  "NotFoundError \<equiv> HTTPException 404 ''Post not found''"

section \<open>Password hashing\<close>

text \<open>
  \<^verbatim>\<open>pwd_context\<close> is passlib's bcrypt context, a black box: \<^verbatim>\<open>hash\<close> draws a
  128-bit salt, \<^verbatim>\<open>verify\<close> checks a plaintext against a digest.
\<close>

record CryptContext =
  CryptContext_hash :: "128 word \<Rightarrow> string \<Rightarrow> string"
  CryptContext_verify :: "string \<Rightarrow> string \<Rightarrow> bool"

definition hash_password :: "CryptContext \<Rightarrow> 128 word \<Rightarrow> string \<Rightarrow> string" where
  "hash_password pwd_context salt password = CryptContext_hash pwd_context salt password"

definition verify_password :: "CryptContext \<Rightarrow> string \<Rightarrow> string \<Rightarrow> bool" where
  "verify_password pwd_context plain_password hashed_password =
     CryptContext_verify pwd_context plain_password hashed_password"

section \<open>Tokens\<close>

text \<open>
  \<^verbatim>\<open>secrets.token_hex(16)\<close>: sixteen random bytes, here one 128-bit word, written
  as 32 lower-case hexadecimal digits, the most significant first.
\<close>

definition hexdigits :: string where
  "hexdigits = ''0123456789abcdef''"

definition token_hex :: "128 word \<Rightarrow> string" where
  "token_hex w = map (\<lambda>i. hexdigits ! unat (drop_bit (4 * (31 - i)) w AND 15)) [0..<32]"

section \<open>The cache\<close>

text \<open>
  Modelled from the spec: \<^verbatim>\<open>cachetools.TTLCache\<close>, the class of the module's
  \<^verbatim>\<open>cache\<close>, is a library whose code is not part of the repository. The model
  follows the spec's PostCache: an entry is served only while \<open>now < expiresAt\<close>, a
  write sets \<open>expiresAt = now + TTL\<close>, and a write of a new key into a full cache evicts
  first. The spec leaves the eviction order open; here, as cachetools documents for
  TTLCache, a write first drops the entries that have expired and then the least recently
  used ones. The entries are kept in order of use, the least recently used first.
\<close>

record 'v TTLCache =
  maxsize :: nat
  ttl :: real
  entries :: "(string \<times> 'v \<times> real) list"

definition TTLCache_init :: "nat \<Rightarrow> real \<Rightarrow> 'v TTLCache" where
  "TTLCache_init m t = \<lparr>maxsize = m, ttl = t, entries = []\<rparr>"

text \<open>
  Modelled from the spec: removing the entry of a key, as the spec's \<open>invalidate\<close>
  does; the reads and writes below use it to move or replace an entry.
\<close>

definition discard :: "string \<Rightarrow> (string \<times> 'v \<times> real) list \<Rightarrow> (string \<times> 'v \<times> real) list" where
  "discard key es = filter (\<lambda>e. fst e \<noteq> key) es"

text \<open>
  Modelled from the spec: \<^verbatim>\<open>key in cache\<close>, the test of the spec's \<open>get\<close>: the
  entry is present and \<open>now < expiresAt\<close>.
\<close>

definition TTLCache_contains :: "'v TTLCache \<Rightarrow> real \<Rightarrow> string \<Rightarrow> bool" where
  "TTLCache_contains c now key =
     (case map_of (entries c) key of
        None \<Rightarrow> False
      | Some (v, expires) \<Rightarrow> now < expires)"

text \<open>
  Modelled from the spec: \<^verbatim>\<open>cache[key]\<close>, the spec's \<open>get\<close>. The value comes back
  only from an entry that is present and not expired; \<open>None\<close> is the miss, which this
  syntax raises as \<^verbatim>\<open>KeyError\<close>. A read marks the entry as recently used.
\<close>

definition TTLCache_getitem :: "'v TTLCache \<Rightarrow> real \<Rightarrow> string \<Rightarrow> 'v option \<times> 'v TTLCache" where
  "TTLCache_getitem c now key =
     (case map_of (entries c) key of
        None \<Rightarrow> (None, c)
      | Some (v, expires) \<Rightarrow>
          (if now < expires then Some v else None,
           c\<lparr>entries := discard key (entries c) @ [(key, v, expires)]\<rparr>))"

text \<open>
  Modelled from the spec: the entries that have not expired at time \<open>now\<close>; the others
  are treated as absent and dropped by the next write.
\<close>

definition expire :: "real \<Rightarrow> (string \<times> 'v \<times> real) list \<Rightarrow> (string \<times> 'v \<times> real) list" where
  "expire now es = filter (\<lambda>e. now < snd (snd e)) es"

text \<open>
  Modelled from the spec: the eviction before a new key is inserted. While one more entry
  does not fit into \<open>m\<close>, the least recently used entry is dropped.
\<close>

fun popitems :: "nat \<Rightarrow> 'a list \<Rightarrow> 'a list" where
  "popitems m [] = []"
| "popitems m (e # es) = (if m < length (e # es) + 1 then popitems m es else e # es)"

text \<open>
  Modelled from the spec: \<^verbatim>\<open>cache[key] = value\<close>, the spec's \<open>put\<close>: the entry is
  inserted or overwritten with \<open>expiresAt = now + TTL\<close>, after the eviction when the key
  is new.
\<close>

definition TTLCache_setitem :: "'v TTLCache \<Rightarrow> real \<Rightarrow> string \<Rightarrow> 'v \<Rightarrow> 'v TTLCache" where
  "TTLCache_setitem c now key v =
     (let live = expire now (entries c);
          kept = (if map_of live key = None then popitems (maxsize c) live else live)
      in c\<lparr>entries := discard key kept @ [(key, v, now + ttl c)]\<rparr>)"

section \<open>The application state\<close>

text \<open>
  The state a request runs against: the store, the module's \<^verbatim>\<open>cache\<close>, and the
  default of the column \<^verbatim>\<open>Post.created_at\<close>. The default is the value of
  \<^verbatim>\<open>int(time.time())\<close> when the class body of \<^verbatim>\<open>Post\<close> is executed, that is,
  when the module is imported.
\<close>

record app =
  db :: Store
  cache :: "Post list TTLCache"
  created_at_default :: int

text \<open>Python's \<^verbatim>\<open>int\<close> of a float: the fraction is cut off, towards zero.\<close>

definition py_int :: "real \<Rightarrow> int" where
  "py_int x = (if 0 \<le> x then \<lfloor>x\<rfloor> else \<lceil>x\<rceil>)"

text \<open>
  Importing the module at wall-clock time \<open>time_time\<close> over the store \<open>d\<close>:
  \<^verbatim>\<open>cache = TTLCache(maxsize=100, ttl=300)\<close>, the column default, and
  \<^verbatim>\<open>create_all\<close>, which keeps the tables that exist.
\<close>

definition startup :: "real \<Rightarrow> Store \<Rightarrow> app" where
  "startup time_time d =
     \<lparr>db = d, cache = TTLCache_init 100 300, created_at_default = py_int time_time\<rparr>"

section \<open>The session\<close>

text \<open>
  \<^verbatim>\<open>db.add(new_user); db.commit()\<close>: the store assigns the primary key and checks
  the two unique constraints of the table (\<^verbatim>\<open>unique=True\<close> on \<^verbatim>\<open>email\<close> and on
  \<^verbatim>\<open>token\<close>, where several rows may have no token); a violation is an
  \<^verbatim>\<open>IntegrityError\<close>, the session is rolled back by \<^verbatim>\<open>get_db\<close> and nothing is
  written.
\<close>

definition add_user :: "Store \<Rightarrow> string \<Rightarrow> string \<Rightarrow> string option \<Rightarrow> error + User \<times> Store" where
  "add_user d email password token =
     (if (\<exists>u \<in> set (users d). User_email u = email)
         \<or> (token \<noteq> None \<and> (\<exists>u \<in> set (users d). User_token u = token))
      then Inl IntegrityError
      else
        let new_user = \<lparr>User_id = users_next_id d, User_email = email,
                         User_password = password, User_token = token\<rparr>
        in Inr (new_user, d\<lparr>users := users d @ [new_user], users_next_id := users_next_id d + 1\<rparr>))"

text \<open>
  \<^verbatim>\<open>db.add(new_post); db.commit()\<close>: the store assigns the primary key and fills
  \<^verbatim>\<open>created_at\<close>, which the handler does not set, with the column default.
\<close>

definition add_post_row :: "Store \<Rightarrow> string \<Rightarrow> int \<Rightarrow> int \<Rightarrow> Post \<times> Store" where
  "add_post_row d text user_id default_created_at =
     (let new_post = \<lparr>Post_id = posts_next_id d, Post_text = text,
                       Post_user_id = user_id, Post_created_at = default_created_at\<rparr>
      in (new_post, d\<lparr>posts := posts d @ [new_post], posts_next_id := posts_next_id d + 1\<rparr>))"

text \<open>\<^verbatim>\<open>db.delete(post); db.commit()\<close>: the row with the primary key of \<open>post\<close> goes.\<close>

definition delete_row :: "Store \<Rightarrow> Post \<Rightarrow> Store" where
  "delete_row d post = d\<lparr>posts := filter (\<lambda>p. Post_id p \<noteq> Post_id post) (posts d)\<rparr>"

section \<open>The handlers\<close>

text \<open>
  A query with \<^verbatim>\<open>.first()\<close> is the first matching row or \<open>None\<close>; with
  \<^verbatim>\<open>.all()\<close> it is every matching row. A handler that raises leaves the state as it
  is; one that commits returns the new state.
\<close>

definition get_user_by_token :: "Store \<Rightarrow> string \<Rightarrow> User option" where
  "get_user_by_token d token = find (\<lambda>u. User_token u = Some token) (users d)"

definition signup :: "CryptContext \<Rightarrow> UserCreate \<Rightarrow> 128 word \<Rightarrow> 128 word \<Rightarrow> app \<Rightarrow> (error + response) \<times> app" where
  "signup pwd_context user salt rnd s =
     (case find (\<lambda>u. User_email u = UserCreate_email user) (users (db s)) of
        Some db_user \<Rightarrow> (Inl (HTTPException 400 ''Email already registered''), s)
      | None \<Rightarrow>
          let hashed_pw = hash_password pwd_context salt (UserCreate_password user)
          in (case add_user (db s) (UserCreate_email user) hashed_pw (Some (token_hex rnd)) of
                Inl e \<Rightarrow> (Inl e, s)
              | Inr (new_user, d) \<Rightarrow> (Inr (Token (User_token new_user)), s\<lparr>db := d\<rparr>)))"

definition login :: "CryptContext \<Rightarrow> UserLogin \<Rightarrow> app \<Rightarrow> (error + response) \<times> app" where
  "login pwd_context user s =
     (case find (\<lambda>u. User_email u = UserLogin_email user) (users (db s)) of
        None \<Rightarrow> (Inl (HTTPException 400 ''Invalid credentials''), s)
      | Some db_user \<Rightarrow>
          if \<not> verify_password pwd_context (UserLogin_password user) (User_password db_user)
          then (Inl (HTTPException 400 ''Invalid credentials''), s)
          else (Inr (Token (User_token db_user)), s))"

definition add_post :: "PostCreate \<Rightarrow> string \<Rightarrow> app \<Rightarrow> (error + response) \<times> app" where
  "add_post post token s =
     (case get_user_by_token (db s) token of
        None \<Rightarrow> (Inl (HTTPException 401 ''Invalid or missing token''), s)
      | Some user \<Rightarrow>
          (case add_post_row (db s) (PostCreate_text post) (User_id user) (created_at_default s) of
             (new_post, d) \<Rightarrow> (Inr (PostID (Post_id new_post)), s\<lparr>db := d\<rparr>)))"

text \<open>
  \<^verbatim>\<open>token in cache\<close> and the read or write that follows each read the cache's timer:
  \<open>t1\<close> and \<open>t2\<close> are the two readings.
\<close>

definition get_posts :: "string \<Rightarrow> real \<Rightarrow> real \<Rightarrow> app \<Rightarrow> (error + response) \<times> app" where
  "get_posts token t1 t2 s =
     (case get_user_by_token (db s) token of
        None \<Rightarrow> (Inl (HTTPException 401 ''Invalid or missing token''), s)
      | Some user \<Rightarrow>
          if TTLCache_contains (cache s) t1 token then
            (case TTLCache_getitem (cache s) t2 token of
               (None, c) \<Rightarrow> (Inl KeyError, s\<lparr>cache := c\<rparr>)
             | (Some cached, c) \<Rightarrow> (Inr (Posts cached), s\<lparr>cache := c\<rparr>))
          else
            let ps = filter (\<lambda>p. Post_user_id p = User_id user) (posts (db s))
            in (Inr (Posts ps), s\<lparr>cache := TTLCache_setitem (cache s) t2 token ps\<rparr>))"

definition delete_post :: "int \<Rightarrow> string \<Rightarrow> app \<Rightarrow> (error + response) \<times> app" where
  "delete_post post_id token s =
     (case get_user_by_token (db s) token of
        None \<Rightarrow> (Inl (HTTPException 401 ''Invalid or missing token''), s)
      | Some user \<Rightarrow>
          (case find (\<lambda>p. Post_id p = post_id \<and> Post_user_id p = User_id user) (posts (db s)) of
             None \<Rightarrow> (Inl (HTTPException 404 ''Post not found''), s)
           | Some post \<Rightarrow> (Inr (Detail ''Post deleted''), s\<lparr>db := delete_row (db s) post\<rparr>)))"

section \<open>Runs of the service\<close>

datatype request =
  Signup UserCreate "128 word" "128 word"
| Login UserLogin
| AddPost PostCreate string
| GetPosts string real real
| DeletePost int string

fun handle :: "CryptContext \<Rightarrow> request \<Rightarrow> app \<Rightarrow> (error + response) \<times> app" where
  "handle pwd_context (Signup user salt rnd) s = signup pwd_context user salt rnd s"
| "handle pwd_context (Login user) s = login pwd_context user s"
| "handle pwd_context (AddPost post token) s = add_post post token s"
| "handle pwd_context (GetPosts token t1 t2) s = get_posts token t1 t2 s"
| "handle pwd_context (DeletePost post_id token) s = delete_post post_id token s"

text \<open>
  An event is a request, or a restart of the process at some wall-clock time: the module
  is imported again over the store as it is.
\<close>

datatype event = Request request | Restart real

fun run :: "CryptContext \<Rightarrow> event list \<Rightarrow> app \<Rightarrow> app" where
  "run pwd_context [] s = s"
| "run pwd_context (Request r # evs) s = run pwd_context evs (snd (handle pwd_context r s))"
| "run pwd_context (Restart time_time # evs) s = run pwd_context evs (startup time_time (db s))"

section \<open>Invariants and examples\<close>

text \<open>
  The module's cache holds at most \<^verbatim>\<open>maxsize=100\<close> entries, and no key twice.
\<close>

definition cache_bounded :: "app \<Rightarrow> bool" where
  "cache_bounded s \<longleftrightarrow>
     maxsize (cache s) = 100 \<and> length (entries (cache s)) \<le> 100
     \<and> distinct (map fst (entries (cache s)))"

text \<open>Every account has a token, of the 32 characters that \<open>token_hex\<close> writes.\<close>

definition tokens_issued :: "Store \<Rightarrow> bool" where
  "tokens_issued d \<longleftrightarrow>
     (\<forall>u \<in> set (users d). case User_token u of None \<Rightarrow> False | Some t \<Rightarrow> length t = 32)"

text \<open>The primary key of the posts: no id twice, and every id below the next one.\<close>

definition posts_keyed :: "Store \<Rightarrow> bool" where
  "posts_keyed d \<longleftrightarrow>
     distinct (map Post_id (posts d)) \<and> (\<forall>p \<in> set (posts d). Post_id p < posts_next_id d)"

text \<open>
  A hashing context for the examples: the digest is the password behind a marker. The
  theorems hold for every context; the examples need one to run.
\<close>

definition plain_context :: CryptContext where
  "plain_context =
     \<lparr>CryptContext_hash = (\<lambda>salt password. CHR ''$'' # password),
      CryptContext_verify = (\<lambda>plain hashed. hashed = CHR ''$'' # plain)\<rparr>"

definition alice :: UserCreate where
  "alice = \<lparr>UserCreate_email = ''alice@example.com'', UserCreate_password = ''wonderland''\<rparr>"

definition bob :: UserCreate where
  "bob = \<lparr>UserCreate_email = ''bob@example.com'', UserCreate_password = ''builder''\<rparr>"

text \<open>The state after Alice alone has signed up, on a process started at time 1000.\<close>

definition signed_up :: app where
  "signed_up = snd (signup plain_context alice 0 1 (startup 1000 empty_store))"

text \<open>
  The example run: two signups, one post each, and Alice lists hers at time 10, which
  fills the cache.
\<close>

definition example_run :: "event list" where
  "example_run =
     [Request (Signup alice 0 1),
      Request (Signup bob 0 2),
      Request (AddPost \<lparr>PostCreate_text = ''first''\<rparr> (token_hex 1)),
      Request (AddPost \<lparr>PostCreate_text = ''second''\<rparr> (token_hex 2)),
      Request (GetPosts (token_hex 1) 10 10)]"

definition example_state :: app where
  "example_state = run plain_context example_run (startup 1000 empty_store)"

section \<open>Lists and tokens\<close>

lemma find_None_set: "find P xs = None \<longleftrightarrow> (\<forall>x \<in> set xs. \<not> P x)"
  by (induction xs) auto

lemma length_token_hex: "length (token_hex w) = 32"
  by (simp add: token_hex_def)

lemma nibble_less: "unat (x AND (15 :: 128 word)) < 16"
proof -
  have "x AND 15 \<le> 15" by (rule word_and_le1)
  then have "unat (x AND 15) \<le> 15" by (simp add: word_le_nat_alt)
  then show ?thesis by simp
qed

lemma distinct_hexdigits: "distinct hexdigits"
  by (simp add: hexdigits_def)

lemma length_hexdigits: "length hexdigits = 16"
  by (simp add: hexdigits_def)

lemma token_hex_nth:
  assumes "k < 32"
  shows "token_hex w ! (31 - k) = hexdigits ! unat (drop_bit (4 * k) w AND 15)"
proof -
  from assms have "[0..<32] ! (31 - k) = 31 - k"
    using nth_upt [of 0 "31 - k" 32] by simp
  moreover from assms have "31 - (31 - k) = k" by simp
  ultimately show ?thesis
    using assms unfolding token_hex_def by (simp del: upt_Suc)
qed

lemma token_hex_nibble:
  assumes "token_hex a = token_hex b" and "k < 32"
  shows "drop_bit (4 * k) a AND 15 = drop_bit (4 * k) b AND 15"
proof -
  from assms have "hexdigits ! unat (drop_bit (4 * k) a AND 15)
      = hexdigits ! unat (drop_bit (4 * k) b AND 15)"
    by (simp add: token_hex_nth [symmetric])
  then have "unat (drop_bit (4 * k) a AND 15) = unat (drop_bit (4 * k) b AND 15)"
    using nibble_less distinct_hexdigits
    by (simp add: nth_eq_iff_index_eq length_hexdigits)
  then show ?thesis by (simp add: word_unat_eq_iff)
qed

lemma fifteen_mask: "(15 :: 128 word) = mask 4"
  by (simp add: mask_eq_exp_minus_1)

text \<open>Two draws give the same token only when they are the same draw.\<close>

lemma token_hex_inj: "token_hex a = token_hex b \<longleftrightarrow> a = b"
proof
  assume eq: "token_hex a = token_hex b"
  show "a = b"
  proof (rule bit_word_eqI)
    fix n :: nat
    assume "n < LENGTH(128)"
    then have k: "n div 4 < 32" by simp
    have n: "4 * (n div 4) + n mod 4 = n" by simp
    have m: "n mod 4 < 128" by (rule less_trans [of _ 4]) simp_all
    have "bit (drop_bit (4 * (n div 4)) a AND 15) (n mod 4)
        = bit (drop_bit (4 * (n div 4)) b AND 15) (n mod 4)"
      using token_hex_nibble [OF eq k] by simp
    then show "bit a n = bit b n"
      by (simp add: bit_and_iff bit_drop_bit_eq fifteen_mask bit_mask_iff n m)
  qed
qed simp

lemmas eval_defs = startup_def empty_store_def TTLCache_init_def py_int_def
  signup_def login_def add_post_def get_posts_def delete_post_def
  add_user_def add_post_row_def delete_row_def get_user_by_token_def
  hash_password_def verify_password_def plain_context_def alice_def bob_def
  TTLCache_contains_def TTLCache_getitem_def TTLCache_setitem_def expire_def discard_def
  Let_def token_hex_inj

lemma signed_up_eq:
  "signed_up =
     \<lparr>db = \<lparr>users =
              [\<lparr>User_id = 1, User_email = ''alice@example.com'',
                User_password = ''$wonderland'', User_token = Some (token_hex 1)\<rparr>],
            posts = [], users_next_id = 2, posts_next_id = 1\<rparr>,
      cache = \<lparr>maxsize = 100, ttl = 300, entries = []\<rparr>,
      created_at_default = 1000\<rparr>"
  by (simp add: signed_up_def eval_defs)

lemma example_state_eq:
  "example_state =
     \<lparr>db = \<lparr>users =
              [\<lparr>User_id = 1, User_email = ''alice@example.com'',
                User_password = ''$wonderland'', User_token = Some (token_hex 1)\<rparr>,
               \<lparr>User_id = 2, User_email = ''bob@example.com'',
                User_password = ''$builder'', User_token = Some (token_hex 2)\<rparr>],
            posts =
              [\<lparr>Post_id = 1, Post_text = ''first'', Post_user_id = 1, Post_created_at = 1000\<rparr>,
               \<lparr>Post_id = 2, Post_text = ''second'', Post_user_id = 2, Post_created_at = 1000\<rparr>],
            users_next_id = 3, posts_next_id = 3\<rparr>,
      cache = \<lparr>maxsize = 100, ttl = 300,
               entries = [(token_hex 1,
                 [\<lparr>Post_id = 1, Post_text = ''first'', Post_user_id = 1,
                   Post_created_at = 1000\<rparr>], 310)]\<rparr>,
      created_at_default = 1000\<rparr>"
  by (simp add: example_state_def example_run_def eval_defs)

section \<open>The cache stays within its capacity\<close>

lemma length_popitems_le: "length (popitems m es) \<le> length es"
  by (induction es) auto

lemma popitems_room: "0 < m \<Longrightarrow> length (popitems m es) < m"
  by (induction es) auto

lemma length_discard_le: "length (discard key es) \<le> length es"
  by (simp add: discard_def)

lemma length_discard_present:
  "map_of es key \<noteq> None \<Longrightarrow> length (discard key es) < length es"
proof (induction es)
  case Nil
  then show ?case by simp
next
  case (Cons e es)
  show ?case
  proof (cases "fst e = key")
    case True
    have "length (filter (\<lambda>e. fst e \<noteq> key) es) \<le> length es" by (rule length_filter_le)
    with True show ?thesis by (simp add: discard_def less_Suc_eq_le)
  next
    case False
    with Cons.prems have "map_of es key \<noteq> None" by (cases e) auto
    from Cons.IH [OF this] False show ?thesis by (simp add: discard_def)
  qed
qed

lemma length_expire_le: "length (expire now es) \<le> length es"
  by (simp add: expire_def)

lemma setitem_bounded:
  assumes "0 < maxsize c" and "length (entries c) \<le> maxsize c"
  shows "length (entries (TTLCache_setitem c now key v)) \<le> maxsize (TTLCache_setitem c now key v)"
proof -
  let ?live = "expire now (entries c)"
  have live: "length ?live \<le> maxsize c"
    using length_expire_le [of now "entries c"] assms(2) by simp
  show ?thesis
  proof (cases "map_of ?live key = None")
    case True
    have "length (discard key (popitems (maxsize c) ?live)) < maxsize c"
      using length_discard_le [of key "popitems (maxsize c) ?live"]
        popitems_room [OF assms(1), of ?live] by simp
    with True show ?thesis by (simp add: TTLCache_setitem_def Let_def)
  next
    case False
    from length_discard_present [OF False] live
    have "length (discard key ?live) < maxsize c" by simp
    moreover from False obtain x where "map_of ?live key = Some x" by blast
    ultimately show ?thesis by (simp add: TTLCache_setitem_def Let_def)
  qed
qed

lemma maxsize_setitem: "maxsize (TTLCache_setitem c now key v) = maxsize c"
  by (simp add: TTLCache_setitem_def Let_def)

lemma length_discard_append:
  "map_of es key = Some x \<Longrightarrow> length (discard key es @ [e]) \<le> length es"
  using length_discard_present [of es key] by simp

lemma getitem_bounded:
  "length (entries (snd (TTLCache_getitem c now key))) \<le> length (entries c)"
proof (cases "map_of (entries c) key")
  case None
  then show ?thesis by (simp add: TTLCache_getitem_def)
next
  case (Some x)
  from length_discard_append [OF Some] Some show ?thesis
    by (simp add: TTLCache_getitem_def split: prod.split)
qed

lemma maxsize_getitem: "maxsize (snd (TTLCache_getitem c now key)) = maxsize c"
  by (simp add: TTLCache_getitem_def split: option.split)

lemma distinct_keys_snoc:
  assumes "distinct (map fst es)"
  shows "distinct (map fst (discard key es @ [(key, x)]))"
proof -
  have "key \<notin> fst ` set (discard key es)"
    by (auto simp: discard_def)
  moreover from assms have "distinct (map fst (discard key es))"
    by (simp add: discard_def distinct_map_filter)
  ultimately show ?thesis by simp
qed

lemma distinct_keys_popitems:
  "distinct (map fst es) \<Longrightarrow> distinct (map fst (popitems m es))"
  by (induction es) auto

lemma setitem_distinct:
  assumes "distinct (map fst (entries c))"
  shows "distinct (map fst (entries (TTLCache_setitem c now key v)))"
proof -
  from assms have live: "distinct (map fst (expire now (entries c)))"
    by (simp add: expire_def distinct_map_filter)
  then have "distinct (map fst (popitems (maxsize c) (expire now (entries c))))"
    by (rule distinct_keys_popitems)
  with live show ?thesis
    by (simp add: TTLCache_setitem_def Let_def distinct_keys_snoc del: map_append)
qed

lemma getitem_distinct:
  assumes "distinct (map fst (entries c))"
  shows "distinct (map fst (entries (snd (TTLCache_getitem c now key))))"
proof (cases "map_of (entries c) key")
  case None
  with assms show ?thesis by (simp add: TTLCache_getitem_def)
next
  case (Some x)
  with distinct_keys_snoc [OF assms] show ?thesis
    by (simp add: TTLCache_getitem_def split: prod.split del: map_append)
qed

lemma cache_bounded_startup: "cache_bounded (startup w d)"
  by (simp add: cache_bounded_def startup_def TTLCache_init_def)

lemma cache_get_posts: 
  assumes "cache_bounded s" shows "cache_bounded (snd (get_posts token t1 t2 s))"
proof -
  from assms have m: "maxsize (cache s) = 100" and l: "length (entries (cache s)) \<le> 100"
    and d: "distinct (map fst (entries (cache s)))"
    by (simp_all add: cache_bounded_def)
  have hit: "cache_bounded (s\<lparr>cache := snd (TTLCache_getitem (cache s) t2 token)\<rparr>)"
    using getitem_bounded [of "cache s" t2 token] getitem_distinct [OF d, of t2 token] m l
    by (simp add: cache_bounded_def maxsize_getitem)
  have miss: "cache_bounded (s\<lparr>cache := TTLCache_setitem (cache s) t2 token ps\<rparr>)" for ps
    using setitem_bounded [of "cache s" t2 token ps] setitem_distinct [OF d, of t2 token ps] m l
    by (simp add: cache_bounded_def maxsize_setitem)
  show ?thesis
  proof (cases "get_user_by_token (db s) token")
    case None
    with assms show ?thesis by (simp add: get_posts_def)
  next
    case (Some user)
    show ?thesis
    proof (cases "TTLCache_contains (cache s) t1 token")
      case True
      obtain r c where g: "TTLCache_getitem (cache s) t2 token = (r, c)" by force
      with hit have "cache_bounded (s\<lparr>cache := c\<rparr>)" by simp
      with Some True g show ?thesis by (simp add: get_posts_def split: option.split)
    next
      case False
      with Some miss show ?thesis by (simp add: get_posts_def Let_def)
    qed
  qed
qed

lemma cache_bounded_handle:
  assumes "cache_bounded s" shows "cache_bounded (snd (handle pwd_context r s))"
proof (cases r)
  case (Signup user salt rnd)
  with assms show ?thesis
    by (auto simp: cache_bounded_def signup_def Let_def split: option.split sum.split)
next
  case (Login user)
  with assms show ?thesis by (simp add: login_def split: option.split)
next
  case (AddPost post token)
  with assms show ?thesis
    by (simp add: cache_bounded_def add_post_def split: option.split prod.split)
next
  case (GetPosts token t1 t2)
  with assms show ?thesis by (simp add: cache_get_posts)
next
  case (DeletePost post_id token)
  with assms show ?thesis
    by (simp add: cache_bounded_def delete_post_def split: option.split)
qed

lemma cache_bounded_run: "cache_bounded s \<Longrightarrow> cache_bounded (run pwd_context evs s)"
proof (induction evs arbitrary: s)
  case Nil
  then show ?case by simp
next
  case (Cons ev evs)
  show ?case
  proof (cases ev)
    case (Request r)
    with Cons.IH [OF cache_bounded_handle [OF Cons.prems]] show ?thesis by simp
  next
    case (Restart w)
    with Cons.IH [OF cache_bounded_startup] show ?thesis by simp
  qed
qed

section \<open>Invariants of the store\<close>

lemma db_startup: "db (startup w d) = d"
  by (simp add: startup_def)

lemma tokens_issued_handle:
  assumes "tokens_issued (db s)" shows "tokens_issued (db (snd (handle pwd_context r s)))"
proof (cases r)
  case (Signup user salt rnd)
  with assms show ?thesis
    by (auto simp: tokens_issued_def signup_def add_user_def Let_def length_token_hex
        split: option.split)
next
  case (Login user)
  with assms show ?thesis by (simp add: login_def split: option.split)
next
  case (AddPost post token)
  with assms show ?thesis
    by (simp add: tokens_issued_def add_post_def add_post_row_def Let_def split: option.split)
next
  case (GetPosts token t1 t2)
  with assms show ?thesis
    by (simp add: get_posts_def Let_def split: option.split prod.split)
next
  case (DeletePost post_id token)
  with assms show ?thesis
    by (simp add: tokens_issued_def delete_post_def delete_row_def split: option.split)
qed

lemma posts_keyed_handle:
  assumes "posts_keyed (db s)" shows "posts_keyed (db (snd (handle pwd_context r s)))"
proof (cases r)
  case (Signup user salt rnd)
  with assms show ?thesis
    by (auto simp: posts_keyed_def signup_def add_user_def Let_def split: option.split)
next
  case (Login user)
  with assms show ?thesis by (simp add: login_def split: option.split)
next
  case (AddPost post token)
  with assms show ?thesis
    by (fastforce simp: posts_keyed_def add_post_def add_post_row_def Let_def split: option.split)
next
  case (GetPosts token t1 t2)
  with assms show ?thesis
    by (simp add: get_posts_def Let_def split: option.split prod.split)
next
  case (DeletePost post_id token)
  with assms show ?thesis
    by (simp add: posts_keyed_def delete_post_def delete_row_def distinct_map_filter
        split: option.split)
qed

lemma invariant_run:
  assumes step: "\<And>r s. I (db s) \<Longrightarrow> I (db (snd (handle pwd_context r s)))"
    and init: "I (db s)"
  shows "I (db (run pwd_context evs s))"
  using init
proof (induction evs arbitrary: s)
  case Nil
  then show ?case by simp
next
  case (Cons ev evs)
  show ?case
  proof (cases ev)
    case (Request r)
    with Cons.IH [OF step [OF Cons.prems]] show ?thesis by simp
  next
    case (Restart w)
    from Cons.prems have "I (db (startup w (db s)))" by (simp add: db_startup)
    from Cons.IH [OF this] Restart show ?thesis by simp
  qed
qed

lemma tokens_issued_run: "tokens_issued (db (run pwd_context evs (startup w empty_store)))"
proof (rule invariant_run)
  show "tokens_issued (db (startup w empty_store))"
    by (simp add: tokens_issued_def startup_def empty_store_def)
qed (rule tokens_issued_handle)

lemma posts_keyed_run: "posts_keyed (db (run pwd_context evs (startup w empty_store)))"
proof (rule invariant_run)
  show "posts_keyed (db (startup w empty_store))"
    by (simp add: posts_keyed_def startup_def empty_store_def)
qed (rule posts_keyed_handle)

lemma filter_key_remove1:
  assumes "distinct (map f xs)" and "x \<in> set xs"
  shows "filter (\<lambda>y. f y \<noteq> f x) xs = remove1 x xs"
  using assms
proof (induction xs)
  case Nil
  then show ?case by simp
next
  case (Cons a xs)
  show ?case
  proof (cases "a = x")
    case True
    from Cons.prems(1) have "f a \<notin> f ` set xs" by simp
    then have "\<forall>y \<in> set xs. f y \<noteq> f a" by (metis image_eqI)
    then have "filter (\<lambda>y. f y \<noteq> f a) xs = xs" by (simp add: filter_id_conv)
    with True show ?thesis by simp
  next
    case False
    with Cons.prems have x: "x \<in> set xs" and d: "distinct (map f xs)" by auto
    with Cons.prems(1) have "f a \<noteq> f x" by auto
    with Cons.IH [OF d x] False show ?thesis by simp
  qed
qed

section \<open>Accounts persist\<close>

lemma find_append_Some: "find P xs = Some x \<Longrightarrow> find P (xs @ ys) = Some x"
  by (induction xs) (auto split: if_splits)

lemma users_handle: "\<exists>us. users (db (snd (handle pwd_context r s))) = users (db s) @ us"
proof (cases r)
  case (Signup user salt rnd)
  then show ?thesis
    by (simp add: signup_def add_user_def Let_def split: option.split)
next
  case (Login user)
  then show ?thesis by (simp add: login_def split: option.split)
next
  case (AddPost post token)
  then show ?thesis
    by (simp add: add_post_def add_post_row_def Let_def split: option.split)
next
  case (GetPosts token t1 t2)
  then show ?thesis by (simp add: get_posts_def Let_def split: option.split prod.split)
next
  case (DeletePost post_id token)
  then show ?thesis by (simp add: delete_post_def delete_row_def split: option.split)
qed

lemma users_run: "\<exists>us. users (db (run pwd_context evs s)) = users (db s) @ us"
proof (induction evs arbitrary: s)
  case Nil
  then show ?case by simp
next
  case (Cons ev evs)
  show ?case
  proof (cases ev)
    case (Request r)
    obtain us where 1: "users (db (snd (handle pwd_context r s))) = users (db s) @ us"
      using users_handle by blast
    obtain vs where "users (db (run pwd_context evs (snd (handle pwd_context r s))))
        = users (db (snd (handle pwd_context r s))) @ vs"
      using Cons.IH by blast
    with 1 Request show ?thesis by simp
  next
    case (Restart w)
    obtain vs where "users (db (run pwd_context evs (startup w (db s))))
        = users (db (startup w (db s))) @ vs"
      using Cons.IH by blast
    with Restart show ?thesis by (simp add: startup_def)
  qed
qed

lemma find_run:
  assumes "find P (users (db s)) = Some u"
  shows "find P (users (db (run pwd_context evs s))) = Some u"
proof -
  obtain us where "users (db (run pwd_context evs s)) = users (db s) @ us"
    using users_run by blast
  with find_append_Some [OF assms] show ?thesis by simp
qed

lemma find_snoc_new:
  assumes "find P xs = None" and "P x"
  shows "find P (xs @ [x]) = Some x"
  using assms by (induction xs) (auto split: if_splits)

section \<open>Reading through the cache\<close>

lemma map_of_discard: "map_of (discard key es) key = None"
  by (induction es) (auto simp: discard_def)

lemma map_add_discard: "(m ++ map_of (discard key es)) key = m key"
  by (simp add: map_of_discard map_add_def)

lemma map_of_setitem:
  "map_of (entries (TTLCache_setitem c now key v)) key = Some (v, now + ttl c)"
  by (simp add: TTLCache_setitem_def Let_def map_add_discard)

lemma contains_setitem:
  "TTLCache_contains (TTLCache_setitem c now key v) t key \<longleftrightarrow> t < now + ttl c"
  by (simp add: TTLCache_contains_def map_of_setitem)

lemma getitem_live:
  assumes "map_of (entries c) key = Some (v, expires)" and "t < expires"
  shows "fst (TTLCache_getitem c t key) = Some v"
    and "map_of (entries (snd (TTLCache_getitem c t key))) key = Some (v, expires)"
  using assms by (simp_all add: TTLCache_getitem_def map_add_discard)

lemma map_of_getitem:
  "map_of (entries (snd (TTLCache_getitem c t key))) key = map_of (entries c) key"
  by (simp add: TTLCache_getitem_def map_add_discard split: option.split)

lemma contains_getitem:
  "TTLCache_contains (snd (TTLCache_getitem c t key)) t' key = TTLCache_contains c t' key"
  by (simp add: TTLCache_contains_def map_of_getitem)

lemma contains_absent: "map_of (entries c) key = None \<Longrightarrow> \<not> TTLCache_contains c t key"
  by (simp add: TTLCache_contains_def)

lemma get_posts_miss:
  assumes "get_user_by_token (db s) token = Some user"
    and "\<not> TTLCache_contains (cache s) t1 token"
  shows "get_posts token t1 t2 s =
     (Inr (Posts (filter (\<lambda>p. Post_user_id p = User_id user) (posts (db s)))),
      s\<lparr>cache := TTLCache_setitem (cache s) t2 token
          (filter (\<lambda>p. Post_user_id p = User_id user) (posts (db s)))\<rparr>)"
  using assms by (simp add: get_posts_def Let_def)

lemma get_posts_hit:
  assumes "get_user_by_token (db s) token = Some user"
    and "map_of (entries (cache s)) token = Some (cached, expires)"
    and "t1 < expires" and "t2 < expires"
  shows "get_posts token t1 t2 s =
     (Inr (Posts cached), s\<lparr>cache := snd (TTLCache_getitem (cache s) t2 token)\<rparr>)"
proof -
  from assms(2,3) have "TTLCache_contains (cache s) t1 token"
    by (simp add: TTLCache_contains_def)
  moreover obtain r c where g: "TTLCache_getitem (cache s) t2 token = (r, c)" by force
  moreover from getitem_live(1) [OF assms(2,4)] g have "r = Some cached" by simp
  ultimately show ?thesis using assms(1) by (simp add: get_posts_def)
qed

lemma add_post_ok:
  assumes "get_user_by_token (db s) token = Some user"
  shows "add_post post token s =
     (Inr (PostID (posts_next_id (db s))),
      s\<lparr>db := (db s)\<lparr>posts := posts (db s) @
            [\<lparr>Post_id = posts_next_id (db s), Post_text = PostCreate_text post,
              Post_user_id = User_id user, Post_created_at = created_at_default s\<rparr>],
          posts_next_id := posts_next_id (db s) + 1\<rparr>\<rparr>)"
  using assms by (simp add: add_post_def add_post_row_def Let_def)

lemma add_post_resolves:
  assumes "add_post post token s = (Inr r, s')"
  obtains user where "get_user_by_token (db s) token = Some user"
  using assms by (cases "get_user_by_token (db s) token") (simp_all add: add_post_def)

lemma db_get_posts: "db (snd (get_posts token t1 t2 s)) = db s"
  by (simp add: get_posts_def Let_def split: option.split prod.split)

section \<open>The column default\<close>

text \<open>
  What \<open>add_post\<close> stores as \<open>created_at\<close> is the column default, which
  no request changes: it is fixed when the module is imported.
\<close>

lemma add_post_created_at:
  assumes "add_post post token s = (Inr (PostID post_id), s')"
  shows "\<exists>p. posts (db s') = posts (db s) @ [p] \<and> Post_id p = post_id
            \<and> Post_created_at p = created_at_default s
            \<and> created_at_default s' = created_at_default s"
  using assms
  by (auto simp: add_post_def add_post_row_def Let_def split: option.splits)

lemma created_at_default_handle:
  "created_at_default (snd (handle pwd_context r s)) = created_at_default s"
proof (cases r)
  case (Signup user salt rnd)
  then show ?thesis
    by (auto simp: signup_def add_user_def Let_def split: option.split)
next
  case (Login user)
  then show ?thesis by (simp add: login_def split: option.split)
next
  case (AddPost post token)
  then show ?thesis
    by (simp add: add_post_def add_post_row_def Let_def split: option.split)
next
  case (GetPosts token t1 t2)
  then show ?thesis by (simp add: get_posts_def Let_def split: option.split prod.split)
next
  case (DeletePost post_id token)
  then show ?thesis by (simp add: delete_post_def delete_row_def split: option.split)
qed

section \<open>Create, then list\<close>

text \<open>
  Claim C1. For every token \<open>t\<close>: when the cache has no entry for \<open>t\<close> and the
  post "hello" is created with \<open>t\<close>, the list request that follows returns a sequence
  that contains "hello". When a list request comes first and fills the cache (it finds no
  live entry and writes one at time \<open>a2\<close>) and the post is created after it, then a
  list request whose two timer readings are within the TTL window of that entry returns
  the sequence from before the create, and a list request made once the entry has expired
  returns that sequence with the new post appended, whether or not the stale read happened
  in between.
\<close>

theorem create_then_list:
  "(map_of (entries (cache s)) token = None
      \<and> add_post \<lparr>PostCreate_text = ''hello''\<rparr> token s = (Inr (PostID post_id), s1) \<longrightarrow>
      (\<exists>listed. fst (get_posts token t1 t2 s1) = Inr (Posts listed)
         \<and> ''hello'' \<in> Post_text ` set listed))
   \<and> (\<not> TTLCache_contains (cache s) a1 token
      \<and> add_post \<lparr>PostCreate_text = ''hello''\<rparr> token (snd (get_posts token a1 a2 s))
          = (Inr (PostID post_id'), s2)
      \<and> b1 < a2 + ttl (cache s) \<and> b2 < a2 + ttl (cache s) \<and> a2 + ttl (cache s) \<le> c1 \<longrightarrow>
      (\<exists>before new_post.
           fst (get_posts token a1 a2 s) = Inr (Posts before)
         \<and> Post_id new_post = post_id' \<and> Post_text new_post = ''hello''
         \<and> fst (get_posts token b1 b2 s2) = Inr (Posts before)
         \<and> fst (get_posts token c1 c2 s2) = Inr (Posts (before @ [new_post]))
         \<and> fst (get_posts token c1 c2 (snd (get_posts token b1 b2 s2)))
             = Inr (Posts (before @ [new_post]))))"
proof (intro conjI impI)
  let ?hello = "\<lparr>PostCreate_text = ''hello''\<rparr>"
  assume a: "map_of (entries (cache s)) token = None
      \<and> add_post ?hello token s = (Inr (PostID post_id), s1)"
  then obtain user where auth: "get_user_by_token (db s) token = Some user"
    by (blast elim: add_post_resolves)
  let ?new = "\<lparr>Post_id = posts_next_id (db s), Post_text = ''hello'',
      Post_user_id = User_id user, Post_created_at = created_at_default s\<rparr>"
  let ?mine = "filter (\<lambda>p. Post_user_id p = User_id user) (posts (db s1))"
  from a add_post_ok [OF auth, of ?hello]
  have s1: "s1 = s\<lparr>db := (db s)\<lparr>posts := posts (db s) @ [?new],
      posts_next_id := posts_next_id (db s) + 1\<rparr>\<rparr>"
    by auto
  have auth1: "get_user_by_token (db s1) token = Some user"
    using auth by (simp add: s1 get_user_by_token_def)
  have miss: "\<not> TTLCache_contains (cache s1) t1 token"
    using a by (simp add: s1 TTLCache_contains_def)
  have "fst (get_posts token t1 t2 s1) = Inr (Posts ?mine)"
    by (simp add: get_posts_miss [OF auth1 miss])
  moreover have "''hello'' \<in> Post_text ` set ?mine"
    by (simp add: s1 image_iff)
  ultimately show "\<exists>listed. fst (get_posts token t1 t2 s1) = Inr (Posts listed)
         \<and> ''hello'' \<in> Post_text ` set listed"
    by blast
next
  let ?hello = "\<lparr>PostCreate_text = ''hello''\<rparr>"
  assume b: "\<not> TTLCache_contains (cache s) a1 token
      \<and> add_post ?hello token (snd (get_posts token a1 a2 s)) = (Inr (PostID post_id'), s2)
      \<and> b1 < a2 + ttl (cache s) \<and> b2 < a2 + ttl (cache s) \<and> a2 + ttl (cache s) \<le> c1"
  then obtain user where "get_user_by_token (db (snd (get_posts token a1 a2 s))) token = Some user"
    by (blast elim: add_post_resolves)
  then have auth: "get_user_by_token (db s) token = Some user"
    by (simp add: db_get_posts)
  let ?before = "filter (\<lambda>p. Post_user_id p = User_id user) (posts (db s))"
  let ?s1 = "s\<lparr>cache := TTLCache_setitem (cache s) a2 token ?before\<rparr>"
  let ?new = "\<lparr>Post_id = posts_next_id (db s), Post_text = ''hello'',
      Post_user_id = User_id user, Post_created_at = created_at_default s\<rparr>"
  let ?s3 = "snd (get_posts token b1 b2 s2)"
  have list1: "get_posts token a1 a2 s = (Inr (Posts ?before), ?s1)"
    using b by (simp add: get_posts_miss [OF auth])
  have auth1: "get_user_by_token (db ?s1) token = Some user"
    using auth by simp
  from b list1 add_post_ok [OF auth1, of ?hello]
  have id: "post_id' = posts_next_id (db s)"
    and s2: "s2 = ?s1\<lparr>db := (db s)\<lparr>posts := posts (db s) @ [?new],
      posts_next_id := posts_next_id (db s) + 1\<rparr>\<rparr>"
    by auto
  have auth2: "get_user_by_token (db s2) token = Some user"
    using auth by (simp add: s2 get_user_by_token_def)
  have entry2: "map_of (entries (cache s2)) token = Some (?before, a2 + ttl (cache s))"
    by (simp add: s2 map_of_setitem)
  have list2: "get_posts token b1 b2 s2
      = (Inr (Posts ?before), s2\<lparr>cache := snd (TTLCache_getitem (cache s2) b2 token)\<rparr>)"
    using b by (intro get_posts_hit [OF auth2 entry2]) simp_all
  have mine2: "filter (\<lambda>p. Post_user_id p = User_id user) (posts (db s2)) = ?before @ [?new]"
    by (simp add: s2)
  have miss2: "\<not> TTLCache_contains (cache s2) c1 token"
    using b by (simp add: s2 contains_setitem)
  have list3: "fst (get_posts token c1 c2 s2) = Inr (Posts (?before @ [?new]))"
    by (simp add: get_posts_miss [OF auth2 miss2] mine2)
  have auth3: "get_user_by_token (db ?s3) token = Some user"
    using auth2 by (simp add: db_get_posts)
  have miss3: "\<not> TTLCache_contains (cache ?s3) c1 token"
    using miss2 by (simp add: list2 contains_getitem)
  have list4: "fst (get_posts token c1 c2 ?s3) = Inr (Posts (?before @ [?new]))"
    using mine2 by (simp add: get_posts_miss [OF auth3 miss3] db_get_posts)
  from list1 list2 list3 list4 id show "\<exists>before new_post.
           fst (get_posts token a1 a2 s) = Inr (Posts before)
         \<and> Post_id new_post = post_id' \<and> Post_text new_post = ''hello''
         \<and> fst (get_posts token b1 b2 s2) = Inr (Posts before)
         \<and> fst (get_posts token c1 c2 s2) = Inr (Posts (before @ [new_post]))
         \<and> fst (get_posts token c1 c2 (snd (get_posts token b1 b2 s2)))
             = Inr (Posts (before @ [new_post]))"
    by (intro exI [of _ ?before] exI [of _ ?new]) simp
qed

text \<open>
  The theorem for Alice: the entry is written at time 10, so the window ends at 310.
\<close>

theorem create_then_list_witness:
  "fst (get_posts (token_hex 1) 5 6
          (snd (add_post \<lparr>PostCreate_text = ''hello''\<rparr> (token_hex 1) signed_up)))
     = Inr (Posts [\<lparr>Post_id = 1, Post_text = ''hello'', Post_user_id = 1,
                    Post_created_at = 1000\<rparr>])
   \<and> fst (get_posts (token_hex 1) 9 10 signed_up) = Inr (Posts [])
   \<and> fst (get_posts (token_hex 1) 308 309
          (snd (add_post \<lparr>PostCreate_text = ''hello''\<rparr> (token_hex 1)
            (snd (get_posts (token_hex 1) 9 10 signed_up)))))
     = Inr (Posts [])
   \<and> fst (get_posts (token_hex 1) 310 311
          (snd (add_post \<lparr>PostCreate_text = ''hello''\<rparr> (token_hex 1)
            (snd (get_posts (token_hex 1) 9 10 signed_up)))))
     = Inr (Posts [\<lparr>Post_id = 1, Post_text = ''hello'', Post_user_id = 1,
                    Post_created_at = 1000\<rparr>])"
proof -
  let ?hello = "\<lparr>PostCreate_text = ''hello''\<rparr>"
  have a: "map_of (entries (cache signed_up)) (token_hex 1) = None
      \<and> add_post ?hello (token_hex 1) signed_up
          = (Inr (PostID 1), snd (add_post ?hello (token_hex 1) signed_up))"
    by (simp add: signed_up_eq eval_defs)
  have b: "\<not> TTLCache_contains (cache signed_up) 9 (token_hex 1)
      \<and> add_post ?hello (token_hex 1) (snd (get_posts (token_hex 1) 9 10 signed_up))
          = (Inr (PostID 1),
             snd (add_post ?hello (token_hex 1) (snd (get_posts (token_hex 1) 9 10 signed_up))))
      \<and> 308 < 10 + ttl (cache signed_up) \<and> 309 < 10 + ttl (cache signed_up)
      \<and> 10 + ttl (cache signed_up) \<le> 310"
    by (simp add: signed_up_eq eval_defs)
  from create_then_list [of signed_up "token_hex 1" 1
      "snd (add_post ?hello (token_hex 1) signed_up)" 5 6 9 10 1
      "snd (add_post ?hello (token_hex 1) (snd (get_posts (token_hex 1) 9 10 signed_up)))"
      308 309 310 311] a b
  show ?thesis by (simp add: signed_up_eq eval_defs)
qed

section \<open>Writes and the cache\<close>

text \<open>
  Claim C2. Creating a post and deleting a post leave the cache as it was, whatever the
  token and the input: no entry is removed, added or changed, the requesting token's
  entry included.
\<close>

theorem writes_leave_cache_unchanged:
  "cache (snd (add_post post token s)) = cache s
   \<and> cache (snd (delete_post post_id token' s)) = cache s"
  by (simp add: add_post_def delete_post_def add_post_row_def Let_def split: option.split)

text \<open>The theorem at the example state.\<close>

theorem writes_leave_cache_unchanged_witness:
  "cache (snd (add_post \<lparr>PostCreate_text = ''hello''\<rparr> (token_hex 1) example_state))
     = cache example_state
   \<and> cache (snd (delete_post 1 (token_hex 1) example_state)) = cache example_state
   \<and> entries (cache example_state) =
       [(token_hex 1,
         [\<lparr>Post_id = 1, Post_text = ''first'', Post_user_id = 1, Post_created_at = 1000\<rparr>],
         310)]
   \<and> map Post_id (posts (db (snd (delete_post 1 (token_hex 1) example_state)))) = [2]
   \<and> map Post_id (posts (db (snd (add_post \<lparr>PostCreate_text = ''hello''\<rparr> (token_hex 1)
         example_state)))) = [1, 2, 3]"
  using writes_leave_cache_unchanged
    [of "\<lparr>PostCreate_text = ''hello''\<rparr>" "token_hex 1" example_state 1 "token_hex 1"]
  by (simp add: example_state_eq eval_defs)

section \<open>Signing up twice\<close>

text \<open>
  Claim C3. Once a signup with an email has succeeded, whatever happens afterwards, a
  second signup with that email fails with ConflictError, an error of its own, and
  overwrites nothing: the state is as it was, the login with the original credentials
  still succeeds and returns the first account's token, and that token still resolves to
  the account. The hashing context is assumed to verify a password against its own digest.
\<close>

theorem second_signup_conflict:
  assumes first: "signup pwd_context first salt rnd s = (Inr (Token tok), s1)"
    and verify: "verify_password pwd_context (UserCreate_password first)
        (hash_password pwd_context salt (UserCreate_password first))"
    and later: "s2 = run pwd_context evs s1"
    and same: "UserCreate_email second = UserCreate_email first"
  shows "signup pwd_context second salt' rnd' s2 = (Inl ConflictError, s2)
     \<and> login pwd_context \<lparr>UserLogin_email = UserCreate_email first,
          UserLogin_password = UserCreate_password first\<rparr> s2 = (Inr (Token tok), s2)
     \<and> tok = Some (token_hex rnd)
     \<and> (\<exists>u. get_user_by_token (db s2) (token_hex rnd) = Some u
          \<and> User_email u = UserCreate_email first)
     \<and> ConflictError \<notin> {AuthenticationError, AuthorizationError, NotFoundError}"
proof -
  let ?new = "\<lparr>User_id = users_next_id (db s), User_email = UserCreate_email first,
      User_password = hash_password pwd_context salt (UserCreate_password first),
      User_token = Some (token_hex rnd)\<rparr>"
  from first have free: "find (\<lambda>u. User_email u = UserCreate_email first) (users (db s)) = None"
    by (cases "find (\<lambda>u. User_email u = UserCreate_email first) (users (db s))")
      (simp_all add: signup_def)
  from first free have unique: "\<not> (\<exists>u \<in> set (users (db s)). User_token u = Some (token_hex rnd))"
    by (auto simp: signup_def add_user_def Let_def split: if_splits)
  from first free have tok: "tok = Some (token_hex rnd)"
    and users1: "users (db s1) = users (db s) @ [?new]"
    by (auto simp: signup_def add_user_def Let_def split: if_splits)
  from unique have "find (\<lambda>u. User_token u = Some (token_hex rnd)) (users (db s)) = None"
    by (simp add: find_None_set)
  then have "find (\<lambda>u. User_token u = Some (token_hex rnd)) (users (db s1)) = Some ?new"
    unfolding users1 by (rule find_snoc_new) simp
  then have by_token: "get_user_by_token (db s2) (token_hex rnd) = Some ?new"
    unfolding later get_user_by_token_def by (rule find_run)
  have "find (\<lambda>u. User_email u = UserCreate_email first) (users (db s1)) = Some ?new"
    unfolding users1 using free by (rule find_snoc_new) simp
  then have by_email: "find (\<lambda>u. User_email u = UserCreate_email first) (users (db s2)) = Some ?new"
    unfolding later by (rule find_run)
  from by_email same have "signup pwd_context second salt' rnd' s2 = (Inl ConflictError, s2)"
    by (simp add: signup_def)
  moreover from by_email verify tok
  have "login pwd_context \<lparr>UserLogin_email = UserCreate_email first,
          UserLogin_password = UserCreate_password first\<rparr> s2 = (Inr (Token tok), s2)"
    by (simp add: login_def)
  ultimately show ?thesis using tok by_token by simp
qed

text \<open>
  The theorem at the example state: Alice signed up first, and a second signup with her
  email and another password is refused.
\<close>

theorem second_signup_conflict_witness:
  "signup plain_context
     \<lparr>UserCreate_email = ''alice@example.com'', UserCreate_password = ''intruder''\<rparr> 7 8
     example_state = (Inl ConflictError, example_state)
   \<and> login plain_context
     \<lparr>UserLogin_email = ''alice@example.com'', UserLogin_password = ''wonderland''\<rparr>
     example_state = (Inr (Token (Some (token_hex 1))), example_state)
   \<and> get_user_by_token (db example_state) (token_hex 1) = Some (users (db example_state) ! 0)
   \<and> signup plain_context alice 0 1 (startup 1000 empty_store)
       = (Inr (Token (Some (token_hex 1))), signed_up)"
proof -
  let ?second = "\<lparr>UserCreate_email = ''alice@example.com'', UserCreate_password = ''intruder''\<rparr>"
  have first: "signup plain_context alice 0 1 (startup 1000 empty_store)
       = (Inr (Token (Some (token_hex 1))), signed_up)"
    unfolding signed_up_eq by (simp add: eval_defs)
  have verify: "verify_password plain_context (UserCreate_password alice)
        (hash_password plain_context 0 (UserCreate_password alice))"
    by (simp add: eval_defs)
  have later: "example_state = run plain_context (tl example_run) signed_up"
    by (simp add: example_state_def example_run_def signed_up_def)
  have same: "UserCreate_email ?second = UserCreate_email alice"
    by (simp add: alice_def)
  have by_token: "get_user_by_token (db example_state) (token_hex 1)
      = Some (users (db example_state) ! 0)"
    by (simp add: example_state_eq get_user_by_token_def)
  from second_signup_conflict [OF first verify later same, of 7 8] first by_token
  show ?thesis by (simp add: alice_def)
qed

section \<open>Login failures\<close>

text \<open>
  Claim C4. In every state, a login whose password verifies against no account of its
  email (a registered email with a wrong password) and a login with an email that no
  account has both fail, with the same error and the same state: the caller cannot tell
  which field was wrong.
\<close>

theorem login_failures_indistinguishable:
  assumes wrong: "\<forall>u \<in> set (users (db s)). User_email u = UserLogin_email a \<longrightarrow>
            \<not> verify_password pwd_context (UserLogin_password a) (User_password u)"
    and unknown: "\<forall>u \<in> set (users (db s)). User_email u \<noteq> UserLogin_email b"
  shows "login pwd_context a s = (Inl AuthenticationError, s)
         \<and> login pwd_context b s = login pwd_context a s"
proof -
  have "login pwd_context a s = (Inl AuthenticationError, s)"
  proof (cases "find (\<lambda>u. User_email u = UserLogin_email a) (users (db s))")
    case None
    then show ?thesis by (simp add: login_def)
  next
    case (Some u)
    then have "u \<in> set (users (db s))" and "User_email u = UserLogin_email a"
      by (auto simp: find_Some_iff)
    with wrong have "\<not> verify_password pwd_context (UserLogin_password a) (User_password u)"
      by blast
    with Some show ?thesis by (simp add: login_def)
  qed
  moreover from unknown have "find (\<lambda>u. User_email u = UserLogin_email b) (users (db s)) = None"
    by (simp add: find_None_set)
  then have "login pwd_context b s = (Inl AuthenticationError, s)"
    by (simp add: login_def)
  ultimately show ?thesis by simp
qed

text \<open>The theorem at the example state.\<close>

theorem login_failures_indistinguishable_witness:
  "login plain_context
     \<lparr>UserLogin_email = ''alice@example.com'', UserLogin_password = ''looking-glass''\<rparr>
     example_state = (Inl AuthenticationError, example_state)
   \<and> login plain_context
     \<lparr>UserLogin_email = ''carol@example.com'', UserLogin_password = ''wonderland''\<rparr>
     example_state = (Inl AuthenticationError, example_state)
   \<and> login plain_context
     \<lparr>UserLogin_email = ''alice@example.com'', UserLogin_password = ''wonderland''\<rparr>
     example_state = (Inr (Token (Some (token_hex 1))), example_state)"
proof -
  let ?a = "\<lparr>UserLogin_email = ''alice@example.com'', UserLogin_password = ''looking-glass''\<rparr>"
  let ?b = "\<lparr>UserLogin_email = ''carol@example.com'', UserLogin_password = ''wonderland''\<rparr>"
  have wrong: "\<forall>u \<in> set (users (db example_state)). User_email u = UserLogin_email ?a \<longrightarrow>
      \<not> verify_password plain_context (UserLogin_password ?a) (User_password u)"
    by (simp add: example_state_eq eval_defs)
  have unknown: "\<forall>u \<in> set (users (db example_state)). User_email u \<noteq> UserLogin_email ?b"
    by (simp add: example_state_eq)
  have ok: "login plain_context
     \<lparr>UserLogin_email = ''alice@example.com'', UserLogin_password = ''wonderland''\<rparr>
     example_state = (Inr (Token (Some (token_hex 1))), example_state)"
    by (simp add: example_state_eq eval_defs)
  from login_failures_indistinguishable [OF wrong unknown] ok show ?thesis by simp
qed

section \<open>Tokens that were never issued\<close>

text \<open>
  Claim C5. In every state the service can reach, a token that no account holds, and the
  empty string in particular, is refused by each protected operation (create post, list
  posts, delete post) with AuthorizationError, and the state is as it was.
\<close>

theorem unissued_token_unauthorized:
  assumes reach: "s = run pwd_context evs (startup w empty_store)"
    and unissued: "token = [] \<or> (\<forall>u \<in> set (users (db s)). User_token u \<noteq> Some token)"
  shows "add_post post token s = (Inl AuthorizationError, s)
         \<and> get_posts token t1 t2 s = (Inl AuthorizationError, s)
         \<and> delete_post post_id token s = (Inl AuthorizationError, s)"
proof -
  have "\<forall>u \<in> set (users (db s)). User_token u \<noteq> Some token"
  proof (cases "token = []")
    case True
    from tokens_issued_run [of pwd_context evs w] reach
    have "\<forall>u \<in> set (users (db s)). User_token u \<noteq> Some []"
      by (auto simp: tokens_issued_def split: option.splits)
    with True show ?thesis by simp
  next
    case False
    with unissued show ?thesis by simp
  qed
  then have "get_user_by_token (db s) token = None"
    by (simp add: get_user_by_token_def find_None_set)
  then show ?thesis
    by (simp add: add_post_def get_posts_def delete_post_def)
qed

text \<open>The theorem at the example state, for the empty token and for a token not drawn.\<close>

theorem unissued_token_unauthorized_witness:
  "add_post \<lparr>PostCreate_text = ''hello''\<rparr> [] example_state
     = (Inl AuthorizationError, example_state)
   \<and> get_posts [] 20 21 example_state = (Inl AuthorizationError, example_state)
   \<and> delete_post 1 [] example_state = (Inl AuthorizationError, example_state)
   \<and> add_post \<lparr>PostCreate_text = ''hello''\<rparr> (token_hex 3) example_state
     = (Inl AuthorizationError, example_state)
   \<and> get_posts (token_hex 3) 20 21 example_state = (Inl AuthorizationError, example_state)
   \<and> delete_post 1 (token_hex 3) example_state = (Inl AuthorizationError, example_state)"
proof -
  have reach: "example_state = run plain_context example_run (startup 1000 empty_store)"
    by (simp add: example_state_def)
  have unissued: "token_hex 3 = []
      \<or> (\<forall>u \<in> set (users (db example_state)). User_token u \<noteq> Some (token_hex 3))"
    by (simp add: example_state_eq token_hex_inj)
  from unissued_token_unauthorized [OF reach, of "[]" "\<lparr>PostCreate_text = ''hello''\<rparr>" 20 21 1]
    unissued_token_unauthorized [OF reach unissued, of "\<lparr>PostCreate_text = ''hello''\<rparr>" 20 21 1]
  show ?thesis by simp
qed

section \<open>Deleting a post that is not one's own\<close>

text \<open>
  Claim C6. For an authenticated account and a post id, when every post with that id
  belongs to another account (none exists, or the one that does is not the account's),
  \<open>delete_post\<close> fails with the one NotFoundError and the state, so every post, is as
  it was: the lookup is by id and owner together.
\<close>

theorem delete_post_not_owned:
  assumes "get_user_by_token (db s) token = Some user"
    and "\<forall>p \<in> set (posts (db s)). Post_id p = post_id \<longrightarrow> Post_user_id p \<noteq> User_id user"
  shows "delete_post post_id token s = (Inl NotFoundError, s)"
proof -
  from assms(2)
  have "find (\<lambda>p. Post_id p = post_id \<and> Post_user_id p = User_id user) (posts (db s)) = None"
    by (auto simp: find_None_set)
  with assms(1) show ?thesis by (simp add: delete_post_def)
qed

text \<open>The theorem at the example state.\<close>

theorem delete_post_not_owned_witness:
  "delete_post 2 (token_hex 1) example_state = (Inl NotFoundError, example_state)
   \<and> Post_user_id (posts (db example_state) ! 1) = 2
   \<and> Post_id (posts (db example_state) ! 1) = 2
   \<and> map User_id (users (db example_state)) = [1, 2]
   \<and> get_user_by_token (db example_state) (token_hex 1) = Some (users (db example_state) ! 0)"
proof -
  let ?alice = "users (db example_state) ! 0"
  have u: "get_user_by_token (db example_state) (token_hex 1) = Some ?alice"
    by (simp add: example_state_eq get_user_by_token_def)
  have p: "\<forall>p \<in> set (posts (db example_state)). Post_id p = 2 \<longrightarrow> Post_user_id p \<noteq> User_id ?alice"
    by (simp add: example_state_eq)
  from delete_post_not_owned [OF u p] u show ?thesis
    by (simp add: example_state_eq)
qed

section \<open>The capacity of the cache\<close>

text \<open>
  Claim C7. After every sequence of requests and restarts, from a start over any store,
  the cache holds at most 100 entries, one for each token in it: never more than 100
  distinct tokens.
\<close>

theorem cache_never_exceeds_capacity:
  "length (entries (cache (run pwd_context evs (startup w d)))) \<le> 100
   \<and> card (fst ` set (entries (cache (run pwd_context evs (startup w d)))))
       = length (entries (cache (run pwd_context evs (startup w d))))"
proof -
  let ?es = "entries (cache (run pwd_context evs (startup w d)))"
  have "cache_bounded (run pwd_context evs (startup w d))"
    by (rule cache_bounded_run [OF cache_bounded_startup])
  then have "length ?es \<le> 100" and "distinct (map fst ?es)"
    by (simp_all add: cache_bounded_def)
  moreover from \<open>distinct (map fst ?es)\<close> have "card (fst ` set ?es) = length ?es"
    using distinct_card [of "map fst ?es"] by simp
  ultimately show ?thesis by simp
qed

text \<open>The theorem at the example run.\<close>

theorem cache_never_exceeds_capacity_witness:
  "length (entries (cache example_state)) \<le> 100
   \<and> card (fst ` set (entries (cache example_state))) = length (entries (cache example_state))
   \<and> map fst (entries (cache example_state)) = [token_hex 1]"
  using cache_never_exceeds_capacity [of plain_context example_run 1000 empty_store]
  by (simp add: example_state_def [symmetric]) (simp add: example_state_eq)

section \<open>The creation timestamp\<close>

text \<open>
  Claim C8 says that \<open>created_at\<close> is the time at which the post was created. On a
  process started at time 1000, the two posts of this run, whenever they are created,
  both carry 1000; the post created after a restart at time 5000 carries 5000.
\<close>

theorem created_at_is_import_time:
  "map Post_created_at (posts (db (run plain_context
      [Request (AddPost \<lparr>PostCreate_text = ''first''\<rparr> (token_hex 1)),
       Request (AddPost \<lparr>PostCreate_text = ''second''\<rparr> (token_hex 1)),
       Restart 5000,
       Request (AddPost \<lparr>PostCreate_text = ''third''\<rparr> (token_hex 1))] signed_up)))
     = [1000, 1000, 5000]"
  by (simp add: signed_up_eq eval_defs)

section \<open>What a deletion removes\<close>

text \<open>
  Claim C9. In every state the service can reach, a successful \<open>delete_post\<close> removes
  the one post with the given id and nothing else: the other posts, of this account and of
  the others, stay as they were and in their order, no post with that id is left, and the
  accounts with their tokens, like the rest of the state, are unchanged.
\<close>

theorem delete_post_removes_one:
  assumes reach: "s = run pwd_context evs (startup w empty_store)"
    and ok: "delete_post post_id token s = (Inr r, s')"
  shows "\<exists>p. p \<in> set (posts (db s)) \<and> Post_id p = post_id
           \<and> posts (db s') = remove1 p (posts (db s))
           \<and> (\<forall>q \<in> set (posts (db s')). Post_id q \<noteq> post_id)
           \<and> length (posts (db s')) + 1 = length (posts (db s))
           \<and> users (db s') = users (db s)
           \<and> s' = s\<lparr>db := (db s)\<lparr>posts := remove1 p (posts (db s))\<rparr>\<rparr>"
proof -
  from ok obtain user where u: "get_user_by_token (db s) token = Some user"
    by (cases "get_user_by_token (db s) token") (simp_all add: delete_post_def)
  from ok u obtain p where
    p: "find (\<lambda>p. Post_id p = post_id \<and> Post_user_id p = User_id user) (posts (db s)) = Some p"
    by (cases "find (\<lambda>p. Post_id p = post_id \<and> Post_user_id p = User_id user) (posts (db s))")
      (simp_all add: delete_post_def)
  from ok u p have s': "s' = s\<lparr>db := delete_row (db s) p\<rparr>"
    by (simp add: delete_post_def)
  from p have mem: "p \<in> set (posts (db s))" and id: "Post_id p = post_id"
    by (auto simp: find_Some_iff)
  from posts_keyed_run [of pwd_context evs w] reach
  have d: "distinct (map Post_id (posts (db s)))" by (simp add: posts_keyed_def)
  have f: "filter (\<lambda>q. Post_id q \<noteq> Post_id p) (posts (db s)) = remove1 p (posts (db s))"
    by (rule filter_key_remove1 [OF d mem])
  from f have posts: "posts (db s') = remove1 p (posts (db s))"
    by (simp add: s' delete_row_def)
  have gone: "\<forall>q \<in> set (posts (db s')). Post_id q \<noteq> post_id"
    using f [symmetric] id by (simp add: posts)
  have len: "length (posts (db s')) + 1 = length (posts (db s))"
    using mem length_pos_if_in_set [OF mem] by (simp add: posts length_remove1)
  have users: "users (db s') = users (db s)"
    by (simp add: s' delete_row_def)
  have whole: "s' = s\<lparr>db := (db s)\<lparr>posts := remove1 p (posts (db s))\<rparr>\<rparr>"
    by (simp add: s' delete_row_def f)
  from mem id posts gone len users whole show ?thesis by blast
qed

text \<open>The theorem at the example state: Alice deletes her post, Bob's stays.\<close>

theorem delete_post_removes_one_witness:
  "delete_post 1 (token_hex 1) example_state
     = (Inr (Detail ''Post deleted''),
        example_state\<lparr>db := (db example_state)\<lparr>posts :=
          [\<lparr>Post_id = 2, Post_text = ''second'', Post_user_id = 2, Post_created_at = 1000\<rparr>]\<rparr>\<rparr>)
   \<and> map Post_id (posts (db example_state)) = [1, 2]
   \<and> (\<exists>p. p \<in> set (posts (db example_state)) \<and> Post_id p = 1
        \<and> posts (db (snd (delete_post 1 (token_hex 1) example_state)))
            = remove1 p (posts (db example_state)))"
proof -
  have reach: "example_state = run plain_context example_run (startup 1000 empty_store)"
    by (simp add: example_state_def)
  have ok: "delete_post 1 (token_hex 1) example_state
     = (Inr (Detail ''Post deleted''),
        example_state\<lparr>db := (db example_state)\<lparr>posts :=
          [\<lparr>Post_id = 2, Post_text = ''second'', Post_user_id = 2, Post_created_at = 1000\<rparr>]\<rparr>\<rparr>)"
    by (simp add: example_state_eq eval_defs)
  have ids: "map Post_id (posts (db example_state)) = [1, 2]"
    by (simp add: example_state_eq)
  from delete_post_removes_one [OF reach ok] ok ids show ?thesis by auto
qed

section \<open>Failed requests\<close>

text \<open>
  Claim C10. When a request (signup, login, create post, list posts, delete post) fails
  with an HTTP error, the store and the cache are exactly as before the request.
\<close>

theorem http_error_leaves_state:
  assumes "fst (handle pwd_context r s) = Inl (HTTPException code detail)"
  shows "snd (handle pwd_context r s) = s"
proof (cases r)
  case (Signup user salt rnd)
  with assms show ?thesis
    by (auto simp: signup_def add_user_def Let_def split: option.splits if_splits)
next
  case (Login user)
  then show ?thesis by (simp add: login_def split: option.split)
next
  case (AddPost post token)
  then show ?thesis using assms
    by (auto simp: add_post_def add_post_row_def Let_def split: option.splits)
next
  case (GetPosts token t1 t2)
  then show ?thesis using assms
    by (auto simp: get_posts_def Let_def split: option.splits if_splits prod.splits)
next
  case (DeletePost post_id token)
  then show ?thesis using assms
    by (auto simp: delete_post_def split: option.splits)
qed

text \<open>The theorem at the example state.\<close>

theorem http_error_leaves_state_witness:
  "fst (handle plain_context (Signup alice 5 6) example_state) = Inl ConflictError
   \<and> snd (handle plain_context (Signup alice 5 6) example_state) = example_state"
proof -
  have e: "fst (handle plain_context (Signup alice 5 6) example_state) = Inl ConflictError"
    by (simp add: example_state_eq eval_defs)
  from http_error_leaves_state [OF e] e show ?thesis by simp
qed

end
